theory Spec2Isabelle
  imports Main
begin

section \<open>The in-memory storage of the VDI dashboard\<close>

text \<open>
  The development embeds \<open>MemStorage\<close> (server storage) and \<open>notifyVDIRequest\<close>
  (server routes). A JavaScript \<open>number\<close> used as an id is an \<open>int\<close>; the ids of
  the program are small counters, far from the range where a double stops being exact.
  The record types follow the table declarations of the shared schema: \<open>status\<close> is a
  text column, \<open>assignedUserId\<close> is a nullable integer.
\<close>

subsection \<open>Records of the schema\<close>

record user =
  user_id :: int
  user_username :: string
  user_password :: string

record insert_user =
  ins_username :: string
  ins_password :: string

record vdi =
  vdi_id :: string
  vdi_status :: string
  vdi_assignedUserId :: "int option"

record vdi_request =
  req_id :: int
  req_vdiId :: string
  req_requestedByUserId :: int
  req_status :: string

text \<open>A thrown \<open>new Error(message)\<close> is the value \<open>Error message\<close>.\<close>

datatype error = Error string

subsection \<open>JavaScript maps\<close>

text \<open>
  A JavaScript \<open>Map\<close> iterates in insertion order, and \<open>set\<close> on a key that is
  present replaces the value where it stands. An association list with \<open>map_set\<close>
  keeps both; \<open>get\<close> is \<open>map_of\<close> and \<open>values()\<close> is \<open>map snd\<close>.
\<close>

fun map_set :: "'k \<Rightarrow> 'v \<Rightarrow> ('k \<times> 'v) list \<Rightarrow> ('k \<times> 'v) list" where
  "map_set k v [] = [(k, v)]"
| "map_set k v ((k', v') # m) =
     (if k' = k then (k, v) # m else (k', v') # map_set k v m)"

definition map_values :: "('k \<times> 'v) list \<Rightarrow> 'v list" where
  "map_values m = map snd m"

subsection \<open>The storage object\<close>

record mem_storage =
  users :: "(int \<times> user) list"
  vdis :: "(string \<times> vdi) list"
  vdiRequests :: "(int \<times> vdi_request) list"
  currentId :: int
  currentRequestId :: int

text \<open>The loop of the constructor: \<open>for (let i = 1; i <= 9; i++)\<close>, ids \<open>VDI0i\<close>.\<close>

definition digit_char :: "nat \<Rightarrow> char" where
  "digit_char i = char_of (48 + i)"

definition initial_vdi :: "nat \<Rightarrow> string \<times> vdi" where
  "initial_vdi i =
     (let vdiId = ''VDI0'' @ [digit_char i]
      in (vdiId, \<lparr>vdi_id = vdiId, vdi_status = ''Free'', vdi_assignedUserId = None\<rparr>))"

definition constructor :: mem_storage where
  "constructor =
     \<lparr>users = [],
      vdis = foldl (\<lambda>m i. map_set (fst (initial_vdi i)) (snd (initial_vdi i)) m) [] [1 ..< 10],
      vdiRequests = [],
      currentId = 1,
      currentRequestId = 1\<rparr>"

definition defaultUsers :: "insert_user list" where
  "defaultUsers =
     [\<lparr>ins_username = ''madhav'', ins_password = ''madhav123''\<rparr>,
      \<lparr>ins_username = ''tinaga'', ins_password = ''tinaga123''\<rparr>]"

text \<open>
  \<open>hashPassword\<close> draws a random salt and calls scrypt; it is a parameter here. The
  body of the loop of \<open>initializeDefaultUsers\<close> is \<open>add_default_user\<close>.
\<close>

definition add_default_user :: "(string \<Rightarrow> string) \<Rightarrow> mem_storage \<Rightarrow> insert_user \<Rightarrow> mem_storage" where
  "add_default_user hashPassword s u =
     (let hashedPassword = hashPassword (ins_password u);
          i = currentId s
      in s\<lparr>currentId := i + 1,
           users := map_set i
             \<lparr>user_id = i, user_username = ins_username u, user_password = hashedPassword\<rparr>
             (users s)\<rparr>)"

definition initializeDefaultUsers :: "(string \<Rightarrow> string) \<Rightarrow> mem_storage \<Rightarrow> mem_storage" where
  "initializeDefaultUsers hashPassword s = foldl (add_default_user hashPassword) s defaultUsers"

definition new_MemStorage :: "(string \<Rightarrow> string) \<Rightarrow> mem_storage" where
  "new_MemStorage hashPassword = initializeDefaultUsers hashPassword constructor"

subsection \<open>Operations\<close>


definition getUserByUsername :: "string \<Rightarrow> mem_storage \<Rightarrow> user option" where
  "getUserByUsername username s =
     List.find (\<lambda>u. user_username u = username) (map_values (users s))"

definition createUser :: "insert_user \<Rightarrow> mem_storage \<Rightarrow> (error + user) \<times> mem_storage" where
  "createUser insertUser s =
     (let i = currentId s;
          u = \<lparr>user_id = i, user_username = ins_username insertUser,
               user_password = ins_password insertUser\<rparr>
      in (Inr u, s\<lparr>currentId := i + 1, users := map_set i u (users s)\<rparr>))"

definition getVDIs :: "mem_storage \<Rightarrow> vdi list" where
  "getVDIs s = map_values (vdis s)"

definition assignVDI :: "string \<Rightarrow> int \<Rightarrow> mem_storage \<Rightarrow> (error + vdi) \<times> mem_storage" where
  "assignVDI vdiId userId s =
     (case map_of (vdis s) vdiId of
        None \<Rightarrow> (Inl (Error ''VDI not found''), s)
      | Some v \<Rightarrow>
          if vdi_status v = ''Assigned'' then (Inl (Error ''VDI already assigned''), s)
          else
            let updatedVdi =
              \<lparr>vdi_id = vdi_id v, vdi_status = ''Assigned'', vdi_assignedUserId = Some userId\<rparr>
            in (Inr updatedVdi, s\<lparr>vdis := map_set vdiId updatedVdi (vdis s)\<rparr>))"

definition unassignVDI :: "string \<Rightarrow> mem_storage \<Rightarrow> (error + vdi) \<times> mem_storage" where
  "unassignVDI vdiId s =
     (case map_of (vdis s) vdiId of
        None \<Rightarrow> (Inl (Error ''VDI not found''), s)
      | Some v \<Rightarrow>
          let updatedVdi =
            \<lparr>vdi_id = vdi_id v, vdi_status = ''Free'', vdi_assignedUserId = None\<rparr>
          in (Inr updatedVdi, s\<lparr>vdis := map_set vdiId updatedVdi (vdis s)\<rparr>))"

definition createVDIRequest ::
  "string \<Rightarrow> int \<Rightarrow> mem_storage \<Rightarrow> (error + vdi_request) \<times> mem_storage" where
  "createVDIRequest vdiId userId s =
     (let i = currentRequestId s;
          request = \<lparr>req_id = i, req_vdiId = vdiId, req_requestedByUserId = userId,
                     req_status = ''Pending''\<rparr>
      in (Inr request,
          s\<lparr>currentRequestId := i + 1, vdiRequests := map_set i request (vdiRequests s)\<rparr>))"

definition approveVDIRequest :: "int \<Rightarrow> mem_storage \<Rightarrow> (error + vdi_request) \<times> mem_storage" where
  "approveVDIRequest requestId s =
     (case map_of (vdiRequests s) requestId of
        None \<Rightarrow> (Inl (Error ''Request not found''), s)
      | Some request \<Rightarrow>
          let updatedRequest = request\<lparr>req_status := ''Approved''\<rparr>;
              s1 = s\<lparr>vdiRequests := map_set requestId updatedRequest (vdiRequests s)\<rparr>
          in (case assignVDI (req_vdiId request) (req_requestedByUserId request) s1 of
                (Inl e, s2) \<Rightarrow> (Inl e, s2)
              | (Inr _, s2) \<Rightarrow> (Inr updatedRequest, s2)))"

definition rejectVDIRequest :: "int \<Rightarrow> mem_storage \<Rightarrow> (error + vdi_request) \<times> mem_storage" where
  "rejectVDIRequest requestId s =
     (case map_of (vdiRequests s) requestId of
        None \<Rightarrow> (Inl (Error ''Request not found''), s)
      | Some request \<Rightarrow>
          let updatedRequest = request\<lparr>req_status := ''Rejected''\<rparr>
          in (Inr updatedRequest,
              s\<lparr>vdiRequests := map_set requestId updatedRequest (vdiRequests s)\<rparr>))"

definition getVDIRequests :: "mem_storage \<Rightarrow> vdi_request list" where
  "getVDIRequests s = map_values (vdiRequests s)"

subsection \<open>The targeted notification\<close>







subsection \<open>Sequences of calls\<close>

text \<open>
  A call of the storage interface, and the storage after a sequence of calls. The loop
  body of \<open>initializeDefaultUsers\<close> does what \<open>createUser\<close> does with the hashed
  password, and it runs after the constructor has returned; the states the program can
  be in are therefore the ones \<open>run constructor\<close> reaches.
\<close>

datatype op =
    CreateUser insert_user
  | AssignVDI string int
  | UnassignVDI string
  | CreateVDIRequest string int
  | ApproveVDIRequest int
  | RejectVDIRequest int

fun step :: "mem_storage \<Rightarrow> op \<Rightarrow> mem_storage" where
  "step s (CreateUser u) = snd (createUser u s)"
| "step s (AssignVDI v u) = snd (assignVDI v u s)"
| "step s (UnassignVDI v) = snd (unassignVDI v s)"
| "step s (CreateVDIRequest v u) = snd (createVDIRequest v u s)"
| "step s (ApproveVDIRequest r) = snd (approveVDIRequest r s)"
| "step s (RejectVDIRequest r) = snd (rejectVDIRequest r s)"

definition run :: "mem_storage \<Rightarrow> op list \<Rightarrow> mem_storage" where
  "run s ops = foldl step s ops"

text \<open>The ids that the \<open>createVDIRequest\<close> calls of a sequence return, in call order.\<close>

fun created_request_ids :: "mem_storage \<Rightarrow> op list \<Rightarrow> int list" where
  "created_request_ids s [] = []"
| "created_request_ids s (CreateVDIRequest v u # ops) =
     (case fst (createVDIRequest v u s) of
        Inr request \<Rightarrow> [req_id request]
      | Inl _ \<Rightarrow> [])
     @ created_request_ids (step s (CreateVDIRequest v u)) ops"
| "created_request_ids s (c # ops) = created_request_ids (step s c) ops"


subsection \<open>Predicates of the properties\<close>

text \<open>The invariant of a VDI record: its status is Assigned exactly when it has a user.\<close>

definition vdi_consistent :: "vdi \<Rightarrow> bool" where
  "vdi_consistent v = ((vdi_status v = ''Assigned'') = (vdi_assignedUserId v \<noteq> None))"

text \<open>Every stored request has a key below the counter of request ids.\<close>

definition requests_bounded :: "mem_storage \<Rightarrow> bool" where
  "requests_bounded s = (\<forall>k \<in> fst ` set (vdiRequests s). k < currentRequestId s)"

text \<open>
  The users stand in insertion order with strictly increasing keys, every user is stored
  under its own id, and every key is below the counter of user ids.
\<close>

definition users_ordered :: "mem_storage \<Rightarrow> bool" where
  "users_ordered s =
     (sorted_wrt (<) (map fst (users s)) \<and>
      (\<forall>(k, u) \<in> set (users s). user_id u = k \<and> k < currentId s))"



text \<open>A stand-in for \<open>hashPassword\<close> and two sample users, for the concrete runs.\<close>

definition sample_hash :: "string \<Rightarrow> string" where
  "sample_hash p = ''scrypt.'' @ p"

definition sample_storage :: mem_storage where
  "sample_storage = new_MemStorage sample_hash"


section \<open>Facts about maps\<close>

lemma map_of_map_set_same: "map_of (map_set k v m) k = Some v"
  by (induction m) auto

lemma map_of_map_set_other: "k' \<noteq> k \<Longrightarrow> map_of (map_set k v m) k' = map_of m k'"
  by (induction m) auto

lemma set_map_set: "set (map_set k v m) \<subseteq> insert (k, v) (set m)"
  by (induction m) (auto split: if_splits)

lemma map_values_map_set:
  "x \<in> set (map_values (map_set k v m)) \<Longrightarrow> x = v \<or> x \<in> set (map_values m)"
  using set_map_set [of k v m] by (auto simp: map_values_def)

lemma in_keys: "(k, v) \<in> set m \<Longrightarrow> k \<in> fst ` set m"
  by (rule image_eqI [where x = "(k, v)"]) simp_all

lemma map_fst_map_set:
  "map fst (map_set k v m) = (if k \<in> fst ` set m then map fst m else map fst m @ [k])"
  by (induction m) (auto simp: in_keys)

lemma keys_map_set: "fst ` set (map_set k v m) = insert k (fst ` set m)"
proof -
  have "set (map fst (map_set k v m)) = insert k (set (map fst m))"
    unfolding map_fst_map_set by auto
  then show ?thesis by simp
qed

lemma map_set_fresh: "k \<notin> fst ` set m \<Longrightarrow> map_set k v m = m @ [(k, v)]"
  by (induction m) auto

lemma map_of_keys: "map_of m k = Some v \<Longrightarrow> k \<in> fst ` set m"
  by (auto dest!: map_of_SomeD intro: in_keys)

section \<open>Assigning a VDI\<close>

text \<open>
  C5. \<open>assignVDI\<close> throws "VDI not found" for an unknown id; throws "VDI already
  assigned" when the record's status is Assigned, whoever holds it, and leaves the storage
  as it was; otherwise it stores and returns the record with status Assigned and the
  given user, under the given id.
\<close>

theorem assignVDI_cases:
  "(map_of (vdis s) vdiId = None \<longrightarrow>
      assignVDI vdiId userId s = (Inl (Error ''VDI not found''), s)) \<and>
   (\<forall>v. map_of (vdis s) vdiId = Some v \<and> vdi_status v = ''Assigned'' \<longrightarrow>
      assignVDI vdiId userId s = (Inl (Error ''VDI already assigned''), s)) \<and>
   (\<forall>v. map_of (vdis s) vdiId = Some v \<and> vdi_status v \<noteq> ''Assigned'' \<longrightarrow>
      fst (assignVDI vdiId userId s) =
        Inr \<lparr>vdi_id = vdi_id v, vdi_status = ''Assigned'', vdi_assignedUserId = Some userId\<rparr> \<and>
      map_of (vdis (snd (assignVDI vdiId userId s))) vdiId =
        Some \<lparr>vdi_id = vdi_id v, vdi_status = ''Assigned'', vdi_assignedUserId = Some userId\<rparr> \<and>
      (\<forall>k. k \<noteq> vdiId \<longrightarrow>
         map_of (vdis (snd (assignVDI vdiId userId s))) k = map_of (vdis s) k) \<and>
      users (snd (assignVDI vdiId userId s)) = users s \<and>
      vdiRequests (snd (assignVDI vdiId userId s)) = vdiRequests s \<and>
      currentId (snd (assignVDI vdiId userId s)) = currentId s \<and>
      currentRequestId (snd (assignVDI vdiId userId s)) = currentRequestId s)"
  by (simp add: assignVDI_def Let_def map_of_map_set_same map_of_map_set_other)

theorem assignVDI_cases_witness:
  "map_of (vdis constructor) ''VDI10'' = None \<and>
   assignVDI ''VDI10'' 1 constructor = (Inl (Error ''VDI not found''), constructor) \<and>
   map_of (vdis (snd (assignVDI ''VDI01'' 1 constructor))) ''VDI01'' =
     Some \<lparr>vdi_id = ''VDI01'', vdi_status = ''Assigned'', vdi_assignedUserId = Some 1\<rparr> \<and>
   assignVDI ''VDI01'' 1 (snd (assignVDI ''VDI01'' 1 constructor)) =
     (Inl (Error ''VDI already assigned''), snd (assignVDI ''VDI01'' 1 constructor)) \<and>
   assignVDI ''VDI01'' 2 (snd (assignVDI ''VDI01'' 1 constructor)) =
     (Inl (Error ''VDI already assigned''), snd (assignVDI ''VDI01'' 1 constructor))"
proof -
  let ?free = "\<lparr>vdi_id = ''VDI01'', vdi_status = ''Free'', vdi_assignedUserId = None\<rparr>"
  let ?held = "\<lparr>vdi_id = ''VDI01'', vdi_status = ''Assigned'', vdi_assignedUserId = Some 1\<rparr>"
  let ?s = "snd (assignVDI ''VDI01'' 1 constructor)"
  have unknown: "map_of (vdis constructor) ''VDI10'' = None"
    by code_simp
  have free: "map_of (vdis constructor) ''VDI01'' = Some ?free \<and> vdi_status ?free \<noteq> ''Assigned''"
    by code_simp
  have held: "map_of (vdis ?s) ''VDI01'' = Some ?held \<and> vdi_status ?held = ''Assigned''"
    by code_simp
  from assignVDI_cases [of constructor "''VDI10''" 1] unknown
  have 1: "assignVDI ''VDI10'' 1 constructor = (Inl (Error ''VDI not found''), constructor)"
    by blast
  from assignVDI_cases [of constructor "''VDI01''" 1] free
  have 2: "map_of (vdis ?s) ''VDI01'' = Some ?held"
    by simp
  from assignVDI_cases [of ?s "''VDI01''" 1] held
  have 3: "assignVDI ''VDI01'' 1 ?s = (Inl (Error ''VDI already assigned''), ?s)"
    by blast
  from assignVDI_cases [of ?s "''VDI01''" 2] held
  have 4: "assignVDI ''VDI01'' 2 ?s = (Inl (Error ''VDI already assigned''), ?s)"
    by blast
  from unknown 1 2 3 4 show ?thesis by blast
qed

section \<open>The invariant of the VDI records\<close>

lemma constructor_consistent: "\<forall>v \<in> set (getVDIs constructor). vdi_consistent v"
  by code_simp

lemma vdis_assignVDI:
  "\<forall>v \<in> set (map_values (vdis s)). vdi_consistent v \<Longrightarrow>
   \<forall>v \<in> set (map_values (vdis (snd (assignVDI k u s)))). vdi_consistent v"
  by (auto simp: assignVDI_def Let_def vdi_consistent_def split: option.splits
      dest!: map_values_map_set)

lemma vdis_unassignVDI:
  "\<forall>v \<in> set (map_values (vdis s)). vdi_consistent v \<Longrightarrow>
   \<forall>v \<in> set (map_values (vdis (snd (unassignVDI k s)))). vdi_consistent v"
  by (auto simp: unassignVDI_def Let_def vdi_consistent_def split: option.splits
      dest!: map_values_map_set)

lemma vdis_approve:
  "vdis (snd (approveVDIRequest r s)) =
     (case map_of (vdiRequests s) r of None \<Rightarrow> vdis s
      | Some q \<Rightarrow> vdis (snd (assignVDI (req_vdiId q) (req_requestedByUserId q) s)))"
  by (simp add: approveVDIRequest_def assignVDI_def Let_def split: option.splits)

lemma step_consistent:
  "\<forall>v \<in> set (map_values (vdis s)). vdi_consistent v \<Longrightarrow>
   \<forall>v \<in> set (map_values (vdis (step s c))). vdi_consistent v"
proof (cases c)
  case (AssignVDI k u)
  assume "\<forall>v \<in> set (map_values (vdis s)). vdi_consistent v"
  then show ?thesis unfolding AssignVDI step.simps by (rule vdis_assignVDI)
next
  case (UnassignVDI k)
  assume "\<forall>v \<in> set (map_values (vdis s)). vdi_consistent v"
  then show ?thesis unfolding UnassignVDI step.simps by (rule vdis_unassignVDI)
next
  case (ApproveVDIRequest r)
  assume a: "\<forall>v \<in> set (map_values (vdis s)). vdi_consistent v"
  show ?thesis
  proof (cases "map_of (vdiRequests s) r")
    case None
    with a show ?thesis by (simp add: ApproveVDIRequest vdis_approve)
  next
    case (Some q)
    with vdis_assignVDI [OF a] show ?thesis by (simp add: ApproveVDIRequest vdis_approve)
  qed
next
  case (CreateUser u)
  assume "\<forall>v \<in> set (map_values (vdis s)). vdi_consistent v"
  then show ?thesis by (simp add: CreateUser createUser_def Let_def)
next
  case (CreateVDIRequest k u)
  assume "\<forall>v \<in> set (map_values (vdis s)). vdi_consistent v"
  then show ?thesis by (simp add: CreateVDIRequest createVDIRequest_def Let_def)
next
  case (RejectVDIRequest r)
  assume "\<forall>v \<in> set (map_values (vdis s)). vdi_consistent v"
  then show ?thesis
    by (simp add: RejectVDIRequest rejectVDIRequest_def Let_def split: option.splits)
qed

lemma run_consistent:
  "\<forall>v \<in> set (map_values (vdis s)). vdi_consistent v \<Longrightarrow>
   \<forall>v \<in> set (map_values (vdis (run s ops))). vdi_consistent v"
  unfolding run_def
proof (induction ops arbitrary: s)
  case Nil
  then show ?case by simp
next
  case (Cons c ops)
  from Cons.IH [OF step_consistent [OF Cons.prems]] show ?case by simp
qed


text \<open>
  C4. In every state that a sequence of storage calls reaches from the constructor's pool,
  every VDI record has status Assigned if and only if its \<open>assignedUserId\<close> is not null.
\<close>

theorem vdi_status_iff_assigned:
  "\<forall>v \<in> set (getVDIs (run constructor ops)).
     (vdi_status v = ''Assigned'') = (vdi_assignedUserId v \<noteq> None)"
  using run_consistent [of constructor ops] constructor_consistent
  by (simp add: getVDIs_def vdi_consistent_def)

theorem vdi_status_iff_assigned_witness:
  "map_of (vdis (run constructor [AssignVDI ''VDI02'' 7, AssignVDI ''VDI03'' 8, UnassignVDI ''VDI03''])) ''VDI02'' =
     Some \<lparr>vdi_id = ''VDI02'', vdi_status = ''Assigned'', vdi_assignedUserId = Some 7\<rparr> \<and>
   (vdi_status \<lparr>vdi_id = ''VDI02'', vdi_status = ''Assigned'', vdi_assignedUserId = Some 7\<rparr> = ''Assigned'') =
     (vdi_assignedUserId \<lparr>vdi_id = ''VDI02'', vdi_status = ''Assigned'', vdi_assignedUserId = Some 7\<rparr> \<noteq> None)"
proof -
  let ?ops = "[AssignVDI ''VDI02'' 7, AssignVDI ''VDI03'' 8, UnassignVDI ''VDI03'']"
  let ?v = "\<lparr>vdi_id = ''VDI02'', vdi_status = ''Assigned'', vdi_assignedUserId = Some 7\<rparr>"
  have at: "map_of (vdis (run constructor ?ops)) ''VDI02'' = Some ?v"
    by code_simp
  then have "(''VDI02'', ?v) \<in> set (vdis (run constructor ?ops))"
    by (rule map_of_SomeD)
  then have "?v \<in> set (getVDIs (run constructor ?ops))"
    by (force simp: getVDIs_def map_values_def)
  with vdi_status_iff_assigned [of ?ops] at show ?thesis
    by blast
qed

section \<open>Request ids\<close>

lemma currentRequestId_assignVDI [simp]:
  "currentRequestId (snd (assignVDI v u s)) = currentRequestId s"
  by (simp add: assignVDI_def Let_def split: option.splits)

lemma vdiRequests_assignVDI [simp]:
  "vdiRequests (snd (assignVDI v u s)) = vdiRequests s"
  by (simp add: assignVDI_def Let_def split: option.splits)

lemma users_assignVDI [simp]:
  "users (snd (assignVDI v u s)) = users s"
  by (simp add: assignVDI_def Let_def split: option.splits)

lemma currentId_assignVDI [simp]:
  "currentId (snd (assignVDI v u s)) = currentId s"
  by (simp add: assignVDI_def Let_def split: option.splits)

lemma vdis_assignVDI_frame:
  "vdis (snd (assignVDI v u (s\<lparr>vdiRequests := m\<rparr>))) = vdis (snd (assignVDI v u s))"
  by (simp add: assignVDI_def Let_def split: option.splits)

lemma snd_approve:
  "snd (approveVDIRequest r s) =
     (case map_of (vdiRequests s) r of
        None \<Rightarrow> s
      | Some q \<Rightarrow>
          snd (assignVDI (req_vdiId q) (req_requestedByUserId q)
                 (s\<lparr>vdiRequests := map_set r (q\<lparr>req_status := ''Approved''\<rparr>) (vdiRequests s)\<rparr>)))"
  by (simp add: approveVDIRequest_def Let_def split: option.splits sum.splits prod.splits)

lemma currentRequestId_step: "currentRequestId s \<le> currentRequestId (step s c)"
  by (cases c)
     (simp_all add: createUser_def unassignVDI_def createVDIRequest_def rejectVDIRequest_def
        snd_approve Let_def split: option.splits)

lemma created_request_ids_bounds:
  "sorted_wrt (<) (created_request_ids s ops) \<and>
   (\<forall>i \<in> set (created_request_ids s ops). currentRequestId s \<le> i)"
proof (induction ops arbitrary: s)
  case Nil
  show ?case by simp
next
  case (Cons c ops)
  note ih = Cons.IH [of "step s c"]
  show ?case
  proof (cases c)
    case (CreateVDIRequest v u)
    have nxt: "currentRequestId (step s c) = currentRequestId s + 1"
      by (simp add: CreateVDIRequest createVDIRequest_def Let_def)
    have hd: "fst (createVDIRequest v u s) =
        Inr \<lparr>req_id = currentRequestId s, req_vdiId = v, req_requestedByUserId = u,
             req_status = ''Pending''\<rparr>"
      by (simp add: createVDIRequest_def Let_def)
    from ih nxt hd show ?thesis
      by (auto simp: CreateVDIRequest simp del: step.simps)
  next
    case (CreateUser x)
    with ih currentRequestId_step [of s c] show ?thesis by (auto simp del: step.simps)
  next
    case (AssignVDI x y)
    with ih currentRequestId_step [of s c] show ?thesis by (auto simp del: step.simps)
  next
    case (UnassignVDI x)
    with ih currentRequestId_step [of s c] show ?thesis by (auto simp del: step.simps)
  next
    case (ApproveVDIRequest x)
    with ih currentRequestId_step [of s c] show ?thesis by (auto simp del: step.simps)
  next
    case (RejectVDIRequest x)
    with ih currentRequestId_step [of s c] show ?thesis by (auto simp del: step.simps)
  qed
qed

text \<open>
  C7. Over any sequence of storage calls from the constructor, approvals and rejections
  among them, the ids that the \<open>createVDIRequest\<close> calls return are strictly increasing
  in call order, so none is returned twice.
\<close>

theorem request_ids_strictly_increasing:
  "sorted_wrt (<) (created_request_ids constructor ops) \<and>
   distinct (created_request_ids constructor ops)"
  using created_request_ids_bounds [of constructor ops]
  by (simp add: strict_sorted_iff)

theorem request_ids_strictly_increasing_witness:
  "created_request_ids constructor
     [CreateVDIRequest ''VDI01'' 2, RejectVDIRequest 1, CreateVDIRequest ''VDI01'' 2,
      ApproveVDIRequest 2, CreateVDIRequest ''VDI05'' 1] = [1, 2, 3] \<and>
   sorted_wrt (<) [1, 2, 3 :: int] \<and> distinct [1, 2, 3 :: int]"
proof -
  let ?ops = "[CreateVDIRequest ''VDI01'' 2, RejectVDIRequest 1, CreateVDIRequest ''VDI01'' 2,
      ApproveVDIRequest 2, CreateVDIRequest ''VDI05'' 1]"
  have ids: "created_request_ids constructor ?ops = [1, 2, 3]"
    by code_simp
  from request_ids_strictly_increasing [of ?ops] ids show ?thesis
    by simp
qed

section \<open>Creating a request\<close>

lemma vdiRequests_reject:
  "vdiRequests (snd (rejectVDIRequest r s)) =
     (case map_of (vdiRequests s) r of
        None \<Rightarrow> vdiRequests s
      | Some q \<Rightarrow> map_set r (q\<lparr>req_status := ''Rejected''\<rparr>) (vdiRequests s))"
  by (simp add: rejectVDIRequest_def Let_def split: option.splits)

lemma vdiRequests_approve:
  "vdiRequests (snd (approveVDIRequest r s)) =
     (case map_of (vdiRequests s) r of
        None \<Rightarrow> vdiRequests s
      | Some q \<Rightarrow> map_set r (q\<lparr>req_status := ''Approved''\<rparr>) (vdiRequests s))"
  by (simp add: snd_approve split: option.splits)

lemma currentRequestId_approve [simp]:
  "currentRequestId (snd (approveVDIRequest r s)) = currentRequestId s"
  by (simp add: snd_approve split: option.splits)

lemma currentRequestId_reject [simp]:
  "currentRequestId (snd (rejectVDIRequest r s)) = currentRequestId s"
  by (simp add: rejectVDIRequest_def Let_def split: option.splits)

lemma keys_decided:
  "map_of m r = Some q \<Longrightarrow> fst ` set (map_set r v m) = fst ` set m"
  using map_of_keys [of m r q] by (auto simp: keys_map_set)

lemma step_request_keys:
  "fst ` set (vdiRequests (step s c)) =
     (case c of
        CreateVDIRequest v u \<Rightarrow> insert (currentRequestId s) (fst ` set (vdiRequests s))
      | _ \<Rightarrow> fst ` set (vdiRequests s))"
proof (cases c)
  case (CreateVDIRequest v u)
  then show ?thesis
    by (simp add: createVDIRequest_def Let_def keys_map_set)
next
  case (ApproveVDIRequest r)
  show ?thesis
  proof (cases "map_of (vdiRequests s) r")
    case None
    then show ?thesis by (simp add: ApproveVDIRequest vdiRequests_approve)
  next
    case (Some q)
    from keys_decided [OF Some] Some show ?thesis
      by (simp add: ApproveVDIRequest vdiRequests_approve)
  qed
next
  case (RejectVDIRequest r)
  show ?thesis
  proof (cases "map_of (vdiRequests s) r")
    case None
    then show ?thesis by (simp add: RejectVDIRequest vdiRequests_reject)
  next
    case (Some q)
    from keys_decided [OF Some] Some show ?thesis
      by (simp add: RejectVDIRequest vdiRequests_reject)
  qed
next
  case (CreateUser u)
  then show ?thesis by (simp add: createUser_def Let_def)
next
  case (AssignVDI v u)
  then show ?thesis by simp
next
  case (UnassignVDI v)
  then show ?thesis by (simp add: unassignVDI_def Let_def split: option.splits)
qed

lemma currentRequestId_create:
  "currentRequestId (step s (CreateVDIRequest v u)) = currentRequestId s + 1"
  by (simp add: createVDIRequest_def Let_def)

lemma step_requests_bounded:
  assumes "requests_bounded s"
  shows "requests_bounded (step s c)"
  unfolding requests_bounded_def
proof
  fix k
  assume k: "k \<in> fst ` set (vdiRequests (step s c))"
  from assms have old: "\<And>j. j \<in> fst ` set (vdiRequests s) \<Longrightarrow> j < currentRequestId s"
    unfolding requests_bounded_def by blast
  show "k < currentRequestId (step s c)"
  proof (cases "k \<in> fst ` set (vdiRequests s)")
    case True
    from old [OF True] currentRequestId_step [of s c] show ?thesis by linarith
  next
    case False
    with k step_request_keys [of s c] obtain v u
      where c: "c = CreateVDIRequest v u" and "k = currentRequestId s"
      by (cases c) auto
    with currentRequestId_create [of s v u] show ?thesis by simp
  qed
qed

lemma run_requests_bounded: "requests_bounded s \<Longrightarrow> requests_bounded (run s ops)"
  unfolding run_def
proof (induction ops arbitrary: s)
  case Nil
  then show ?case by simp
next
  case (Cons c ops)
  from Cons.IH [OF step_requests_bounded [OF Cons.prems]] show ?case by simp
qed

lemma constructor_requests_bounded: "requests_bounded constructor"
  by (simp add: requests_bounded_def constructor_def)

lemma reachable_request_id_fresh:
  "currentRequestId (run constructor ops) \<notin> fst ` set (vdiRequests (run constructor ops))"
  using run_requests_bounded [OF constructor_requests_bounded, of ops]
  by (auto simp: requests_bounded_def)

text \<open>
  C9. In every reachable state, for every \<open>vdiId\<close> and \<open>userId\<close>, \<open>createVDIRequest\<close>
  returns a request and never throws: its id is the counter's value, which no stored
  request has; the request carries the given \<open>vdiId\<close> and user and status Pending; it
  is stored under its id, last in insertion order; the counter moves on by one; and no
  VDI or user record is read or changed.
\<close>

theorem createVDIRequest_succeeds:
  "fst (createVDIRequest vdiId userId (run constructor ops)) =
     Inr \<lparr>req_id = currentRequestId (run constructor ops), req_vdiId = vdiId,
          req_requestedByUserId = userId, req_status = ''Pending''\<rparr> \<and>
   map_of (vdiRequests (run constructor ops)) (currentRequestId (run constructor ops)) = None \<and>
   getVDIRequests (snd (createVDIRequest vdiId userId (run constructor ops))) =
     getVDIRequests (run constructor ops) @
       [\<lparr>req_id = currentRequestId (run constructor ops), req_vdiId = vdiId,
         req_requestedByUserId = userId, req_status = ''Pending''\<rparr>] \<and>
   map_of (vdiRequests (snd (createVDIRequest vdiId userId (run constructor ops))))
       (currentRequestId (run constructor ops)) =
     Some \<lparr>req_id = currentRequestId (run constructor ops), req_vdiId = vdiId,
          req_requestedByUserId = userId, req_status = ''Pending''\<rparr> \<and>
   currentRequestId (snd (createVDIRequest vdiId userId (run constructor ops))) =
     currentRequestId (run constructor ops) + 1 \<and>
   vdis (snd (createVDIRequest vdiId userId (run constructor ops))) = vdis (run constructor ops) \<and>
   users (snd (createVDIRequest vdiId userId (run constructor ops))) = users (run constructor ops)"
proof -
  let ?s = "run constructor ops"
  let ?i = "currentRequestId ?s"
  let ?r = "\<lparr>req_id = ?i, req_vdiId = vdiId, req_requestedByUserId = userId,
             req_status = ''Pending''\<rparr>"
  have fresh: "?i \<notin> fst ` set (vdiRequests ?s)"
    by (rule reachable_request_id_fresh)
  have requests: "vdiRequests (snd (createVDIRequest vdiId userId ?s)) = map_set ?i ?r (vdiRequests ?s)"
    by (simp add: createVDIRequest_def Let_def)
  have 1: "fst (createVDIRequest vdiId userId ?s) = Inr ?r"
    by (simp add: createVDIRequest_def Let_def)
  have 2: "map_of (vdiRequests ?s) ?i = None"
    using fresh by (simp add: map_of_eq_None_iff)
  have 3: "getVDIRequests (snd (createVDIRequest vdiId userId ?s)) = getVDIRequests ?s @ [?r]"
    unfolding getVDIRequests_def map_values_def requests map_set_fresh [OF fresh] by simp
  have 4: "map_of (vdiRequests (snd (createVDIRequest vdiId userId ?s))) ?i = Some ?r"
    unfolding requests by (rule map_of_map_set_same)
  have 5: "currentRequestId (snd (createVDIRequest vdiId userId ?s)) = ?i + 1"
    by (simp add: createVDIRequest_def Let_def)
  have 6: "vdis (snd (createVDIRequest vdiId userId ?s)) = vdis ?s"
    by (simp add: createVDIRequest_def Let_def)
  have 7: "users (snd (createVDIRequest vdiId userId ?s)) = users ?s"
    by (simp add: createVDIRequest_def Let_def)
  from 1 2 3 4 5 6 7 show ?thesis by blast
qed

theorem createVDIRequest_succeeds_witness:
  "fst (createVDIRequest ''no such VDI'' 42 (run constructor [CreateVDIRequest ''VDI01'' 2])) =
     Inr \<lparr>req_id = 2, req_vdiId = ''no such VDI'', req_requestedByUserId = 42,
          req_status = ''Pending''\<rparr>"
proof -
  have "currentRequestId (run constructor [CreateVDIRequest ''VDI01'' 2]) = 2"
    by code_simp
  with createVDIRequest_succeeds [of "''no such VDI''" 42 "[CreateVDIRequest ''VDI01'' 2]"]
  show ?thesis by simp
qed

section \<open>The user store\<close>

lemma new_MemStorage_run:
  "new_MemStorage h =
     run constructor
       [CreateUser \<lparr>ins_username = ''madhav'', ins_password = h ''madhav123''\<rparr>,
        CreateUser \<lparr>ins_username = ''tinaga'', ins_password = h ''tinaga123''\<rparr>]"
  by (simp add: new_MemStorage_def initializeDefaultUsers_def defaultUsers_def
      add_default_user_def run_def createUser_def Let_def)

lemma users_step:
  "users (step s c) =
     (case c of
        CreateUser x \<Rightarrow>
          map_set (currentId s)
            \<lparr>user_id = currentId s, user_username = ins_username x,
             user_password = ins_password x\<rparr> (users s)
      | _ \<Rightarrow> users s)"
  by (cases c)
     (simp_all add: createUser_def unassignVDI_def createVDIRequest_def rejectVDIRequest_def
        snd_approve Let_def split: option.splits)

lemma currentId_step:
  "currentId (step s c) = (case c of CreateUser x \<Rightarrow> currentId s + 1 | _ \<Rightarrow> currentId s)"
  by (cases c)
     (simp_all add: createUser_def unassignVDI_def createVDIRequest_def rejectVDIRequest_def
        snd_approve Let_def split: option.splits)

lemma step_users_ordered:
  assumes "users_ordered s"
  shows "users_ordered (step s c)"
proof (cases c)
  case (CreateUser x)
  let ?i = "currentId s"
  let ?u = "\<lparr>user_id = ?i, user_username = ins_username x, user_password = ins_password x\<rparr>"
  from assms have below: "\<And>k. k \<in> fst ` set (users s) \<Longrightarrow> k < ?i"
    unfolding users_ordered_def by auto
  then have fresh: "?i \<notin> fst ` set (users s)"
    by blast
  have us: "users (step s c) = users s @ [(?i, ?u)]"
    by (simp add: users_step CreateUser map_set_fresh [OF fresh] del: step.simps)
  have cur: "currentId (step s c) = ?i + 1"
    by (simp add: currentId_step CreateUser del: step.simps)
  from assms below show ?thesis
    unfolding users_ordered_def us cur
    by (auto simp: sorted_wrt_append)
next
  case (AssignVDI v u)
  with assms show ?thesis by (simp add: users_ordered_def users_step currentId_step del: step.simps)
next
  case (UnassignVDI v)
  with assms show ?thesis by (simp add: users_ordered_def users_step currentId_step del: step.simps)
next
  case (CreateVDIRequest v u)
  with assms show ?thesis by (simp add: users_ordered_def users_step currentId_step del: step.simps)
next
  case (ApproveVDIRequest r)
  with assms show ?thesis by (simp add: users_ordered_def users_step currentId_step del: step.simps)
next
  case (RejectVDIRequest r)
  with assms show ?thesis by (simp add: users_ordered_def users_step currentId_step del: step.simps)
qed

lemma run_users_ordered: "users_ordered s \<Longrightarrow> users_ordered (run s ops)"
  unfolding run_def
proof (induction ops arbitrary: s)
  case Nil
  then show ?case by simp
next
  case (Cons c ops)
  from Cons.IH [OF step_users_ordered [OF Cons.prems]] show ?case by simp
qed

lemma constructor_users_ordered: "users_ordered constructor"
  by (simp add: users_ordered_def constructor_def)

lemma find_first_least:
  "sorted_wrt (<) (map f xs) \<Longrightarrow> x \<in> set xs \<Longrightarrow> P x \<Longrightarrow>
   \<exists>u. List.find P xs = Some u \<and> P u \<and> u \<in> set xs \<and> f u \<le> (f x :: int)"
proof (induction xs)
  case Nil
  then show ?case by simp
next
  case (Cons y ys)
  show ?case
  proof (cases "P y")
    case True
    with Cons.prems show ?thesis by auto
  next
    case False
    with Cons.prems have "x \<in> set ys" by auto
    with Cons False show ?thesis by auto
  qed
qed

lemma user_ids_sorted:
  assumes "users_ordered s"
  shows "sorted_wrt (<) (map user_id (map_values (users s)))"
proof -
  from assms have "map user_id (map_values (users s)) = map fst (users s)"
    unfolding users_ordered_def map_values_def by auto
  with assms show ?thesis by (simp add: users_ordered_def)
qed

lemma find_first_position:
  "List.find P (map_values m) = Some u \<Longrightarrow>
   \<exists>n<length m. snd (m ! n) = u \<and> (\<forall>k<n. \<not> P (snd (m ! k)))"
proof -
  assume "List.find P (map_values m) = Some u"
  then obtain i where i: "i < length (map_values m)" "u = map_values m ! i"
    and before: "\<forall>j<i. \<not> P (map_values m ! j)"
    unfolding find_Some_iff by blast
  from i have len: "i < length m" by (simp add: map_values_def)
  with i have "snd (m ! i) = u" by (simp add: map_values_def)
  moreover from before len have "\<forall>k<i. \<not> P (snd (m ! k))"
    by (simp add: map_values_def)
  ultimately show ?thesis using len by blast
qed

text \<open>
  C10. In every reachable state, when some stored user has the username, and so also when
  several do, \<open>getUserByUsername\<close> returns a stored user with that username that stands
  before every other user of that name in insertion order, and whose id is at most the id
  of every stored user with that username. Ids are handed out in increasing order, so this
  is the user created first.
\<close>

theorem getUserByUsername_earliest:
  assumes "u' \<in> set (map_values (users (run constructor ops)))"
    and "user_username u' = username"
  shows "\<exists>u. getUserByUsername username (run constructor ops) = Some u \<and>
              user_username u = username \<and>
              u \<in> set (map_values (users (run constructor ops))) \<and>
              user_id u \<le> user_id u' \<and>
              (\<exists>n<length (users (run constructor ops)).
                 snd (users (run constructor ops) ! n) = u \<and>
                 (\<forall>k<n. user_username (snd (users (run constructor ops) ! k)) \<noteq> username))"
proof -
  let ?s = "run constructor ops"
  from find_first_least [where f = user_id and P = "\<lambda>u. user_username u = username",
      OF user_ids_sorted [OF run_users_ordered [OF constructor_users_ordered]] assms]
  obtain u where u: "List.find (\<lambda>u. user_username u = username) (map_values (users ?s)) = Some u"
    and rest: "user_username u = username" "u \<in> set (map_values (users ?s))"
      "user_id u \<le> user_id u'"
    by blast
  from find_first_position [OF u] u rest show ?thesis
    unfolding getUserByUsername_def by blast
qed


theorem getUserByUsername_earliest_witness:
  "\<lparr>user_id = 3, user_username = ''madhav'', user_password = ''pw''\<rparr>
     \<in> set (map_values (users (run sample_storage
          [CreateUser \<lparr>ins_username = ''madhav'', ins_password = ''pw''\<rparr>]))) \<and>
   getUserByUsername ''madhav'' (run sample_storage
          [CreateUser \<lparr>ins_username = ''madhav'', ins_password = ''pw''\<rparr>]) =
     Some \<lparr>user_id = 1, user_username = ''madhav'', user_password = ''scrypt.madhav123''\<rparr>"
proof -
  let ?first = "\<lparr>ins_username = ''madhav'', ins_password = sample_hash ''madhav123''\<rparr>"
  let ?second = "\<lparr>ins_username = ''tinaga'', ins_password = sample_hash ''tinaga123''\<rparr>"
  let ?again = "\<lparr>ins_username = ''madhav'', ins_password = ''pw''\<rparr>"
  let ?ops = "[CreateUser ?first, CreateUser ?second, CreateUser ?again]"
  let ?u3 = "\<lparr>user_id = 3, user_username = ''madhav'', user_password = ''pw''\<rparr>"
  have same: "run sample_storage [CreateUser ?again] = run constructor ?ops"
    by (simp add: sample_storage_def new_MemStorage_run run_def)
  have stored: "?u3 \<in> set (map_values (users (run constructor ?ops)))"
    by code_simp
  have name: "user_username ?u3 = ''madhav''"
    by simp
  from getUserByUsername_earliest [OF stored name]
  obtain u where u: "getUserByUsername ''madhav'' (run constructor ?ops) = Some u"
    by blast
  have "getUserByUsername ''madhav'' (run constructor ?ops) =
      Some \<lparr>user_id = 1, user_username = ''madhav'', user_password = ''scrypt.madhav123''\<rparr>"
    by code_simp
  with stored show ?thesis
    unfolding same by simp
qed

section \<open>Creating a user\<close>

text \<open>
  C8, as the storage has it. \<open>createUser\<close> never fails: it takes the next id, stores the
  new user under it and returns it, also when a user with that username is already
  stored; the storage checks no uniqueness.
\<close>

theorem createUser_never_fails:
  "fst (createUser x s) =
     Inr \<lparr>user_id = currentId s, user_username = ins_username x,
          user_password = ins_password x\<rparr> \<and>
   map_of (users (snd (createUser x s))) (currentId s) =
     Some \<lparr>user_id = currentId s, user_username = ins_username x,
           user_password = ins_password x\<rparr> \<and>
   currentId (snd (createUser x s)) = currentId s + 1"
  by (simp add: createUser_def Let_def map_of_map_set_same)

text \<open>
  The claim as stated fails: with \<open>madhav\<close> stored under id 1, \<open>createUser\<close> for
  \<open>madhav\<close> returns a new user with id 3, and the store then holds two users of that name.
\<close>

theorem createUser_duplicate_counterexample:
  "map_option user_id (getUserByUsername ''madhav'' sample_storage) = Some 1 \<and>
   fst (createUser \<lparr>ins_username = ''madhav'', ins_password = ''pw''\<rparr> sample_storage) =
     Inr \<lparr>user_id = 3, user_username = ''madhav'', user_password = ''pw''\<rparr> \<and>
   map user_username (map_values (users (snd (createUser
      \<lparr>ins_username = ''madhav'', ins_password = ''pw''\<rparr> sample_storage)))) =
     [''madhav'', ''tinaga'', ''madhav'']"
  by code_simp

section \<open>Approving and rejecting\<close>

text \<open>
  C3, as the code has it. A call of \<open>approveVDIRequest\<close> or \<open>rejectVDIRequest\<close>
  deletes no request and changes no request's id, VDI or requester. A stored request
  keeps its status when the call names another id; when the call names its own id, its
  status becomes Approved or Rejected, whatever it was before.
\<close>

theorem decision_overwrites_status:
  assumes "map_of (vdiRequests s) r = Some q"
  shows "map_of (vdiRequests (snd (approveVDIRequest r' s))) r =
           Some (if r' = r then q\<lparr>req_status := ''Approved''\<rparr> else q) \<and>
         map_of (vdiRequests (snd (rejectVDIRequest r' s))) r =
           Some (if r' = r then q\<lparr>req_status := ''Rejected''\<rparr> else q)"
proof (cases "r' = r")
  case True
  with assms show ?thesis
    by (simp add: vdiRequests_approve vdiRequests_reject map_of_map_set_same)
next
  case False
  then have "r \<noteq> r'" by simp
  with assms show ?thesis
    by (simp add: vdiRequests_approve vdiRequests_reject map_of_map_set_other
        split: option.splits)
qed

theorem decision_overwrites_status_witness:
  "map_of (vdiRequests (run sample_storage [CreateVDIRequest ''VDI05'' 2, RejectVDIRequest 1])) 1 =
     Some \<lparr>req_id = 1, req_vdiId = ''VDI05'', req_requestedByUserId = 2,
          req_status = ''Rejected''\<rparr> \<and>
   map_of (vdiRequests (snd (approveVDIRequest 1
       (run sample_storage [CreateVDIRequest ''VDI05'' 2, RejectVDIRequest 1])))) 1 =
     Some \<lparr>req_id = 1, req_vdiId = ''VDI05'', req_requestedByUserId = 2,
          req_status = ''Approved''\<rparr> \<and>
   map_of (vdiRequests (snd (rejectVDIRequest 7
       (run sample_storage [CreateVDIRequest ''VDI05'' 2, RejectVDIRequest 1])))) 1 =
     Some \<lparr>req_id = 1, req_vdiId = ''VDI05'', req_requestedByUserId = 2,
          req_status = ''Rejected''\<rparr>"
proof -
  let ?s = "run sample_storage [CreateVDIRequest ''VDI05'' 2, RejectVDIRequest 1]"
  let ?q = "\<lparr>req_id = 1, req_vdiId = ''VDI05'', req_requestedByUserId = 2,
            req_status = ''Rejected''\<rparr>"
  have stored: "map_of (vdiRequests ?s) 1 = Some ?q"
    by code_simp
  from decision_overwrites_status [OF stored, of 1] decision_overwrites_status [OF stored, of 7]
    stored
  show ?thesis by simp
qed

text \<open>
  The claim as stated fails: a request that was rejected is approved by a later call,
  its status changes from Rejected to Approved, and the VDI goes to the requester.
\<close>

theorem terminal_status_changes_counterexample:
  "map_option req_status
     (map_of (vdiRequests (run sample_storage
        [CreateVDIRequest ''VDI02'' 2, RejectVDIRequest 1])) 1) = Some ''Rejected'' \<and>
   map_option req_status
     (map_of (vdiRequests (run sample_storage
        [CreateVDIRequest ''VDI02'' 2, RejectVDIRequest 1, ApproveVDIRequest 1])) 1) =
     Some ''Approved'' \<and>
   map_of (vdis (run sample_storage
        [CreateVDIRequest ''VDI02'' 2, RejectVDIRequest 1, ApproveVDIRequest 1])) ''VDI02'' =
     Some \<lparr>vdi_id = ''VDI02'', vdi_status = ''Assigned'', vdi_assignedUserId = Some 2\<rparr>"
  by code_simp

text \<open>
  C2, as the code has it. When the VDI of the request is Assigned, so that the inner
  \<open>assignVDI\<close> throws "VDI already assigned", \<open>approveVDIRequest\<close> throws the same
  error and changes no VDI record; the request has been stored with status Approved
  before the attempt and stays so.
\<close>

theorem approve_conflict_keeps_approved:
  assumes "map_of (vdiRequests s) r = Some q"
    and "map_of (vdis s) (req_vdiId q) = Some v"
    and "vdi_status v = ''Assigned''"
  shows "approveVDIRequest r s =
           (Inl (Error ''VDI already assigned''),
            s\<lparr>vdiRequests := map_set r (q\<lparr>req_status := ''Approved''\<rparr>) (vdiRequests s)\<rparr>) \<and>
         vdis (snd (approveVDIRequest r s)) = vdis s \<and>
         map_of (vdiRequests (snd (approveVDIRequest r s))) r =
           Some (q\<lparr>req_status := ''Approved''\<rparr>)"
  using assms
  by (simp add: approveVDIRequest_def assignVDI_def Let_def map_of_map_set_same)

theorem approve_conflict_keeps_approved_witness:
  "map_of (vdiRequests (run sample_storage
      [AssignVDI ''VDI04'' 2, CreateVDIRequest ''VDI04'' 1])) 1 =
     Some \<lparr>req_id = 1, req_vdiId = ''VDI04'', req_requestedByUserId = 1,
          req_status = ''Pending''\<rparr> \<and>
   fst (approveVDIRequest 1 (run sample_storage
      [AssignVDI ''VDI04'' 2, CreateVDIRequest ''VDI04'' 1])) =
     Inl (Error ''VDI already assigned'') \<and>
   map_of (vdiRequests (snd (approveVDIRequest 1 (run sample_storage
      [AssignVDI ''VDI04'' 2, CreateVDIRequest ''VDI04'' 1])))) 1 =
     Some \<lparr>req_id = 1, req_vdiId = ''VDI04'', req_requestedByUserId = 1,
          req_status = ''Approved''\<rparr>"
proof -
  let ?s = "run sample_storage [AssignVDI ''VDI04'' 2, CreateVDIRequest ''VDI04'' 1]"
  let ?q = "\<lparr>req_id = 1, req_vdiId = ''VDI04'', req_requestedByUserId = 1,
            req_status = ''Pending''\<rparr>"
  let ?v = "\<lparr>vdi_id = ''VDI04'', vdi_status = ''Assigned'', vdi_assignedUserId = Some 2\<rparr>"
  have stored: "map_of (vdiRequests ?s) 1 = Some ?q"
    by code_simp
  have held: "map_of (vdis ?s) (req_vdiId ?q) = Some ?v"
    by code_simp
  have status: "vdi_status ?v = ''Assigned''"
    by simp
  from approve_conflict_keeps_approved [OF stored held status] stored
  show ?thesis by (simp add: map_of_map_set_same)
qed

text \<open>
  The claim as stated fails: the approval throws, and the request that was Pending is
  left Approved.
\<close>

theorem approve_conflict_half_updated_counterexample:
  "map_of (vdiRequests (run sample_storage
      [AssignVDI ''VDI03'' 1, CreateVDIRequest ''VDI03'' 2])) 1 =
     Some \<lparr>req_id = 1, req_vdiId = ''VDI03'', req_requestedByUserId = 2,
          req_status = ''Pending''\<rparr> \<and>
   fst (approveVDIRequest 1 (run sample_storage
      [AssignVDI ''VDI03'' 1, CreateVDIRequest ''VDI03'' 2])) =
     Inl (Error ''VDI already assigned'') \<and>
   map_of (vdiRequests (snd (approveVDIRequest 1 (run sample_storage
      [AssignVDI ''VDI03'' 1, CreateVDIRequest ''VDI03'' 2])))) 1 =
     Some \<lparr>req_id = 1, req_vdiId = ''VDI03'', req_requestedByUserId = 2,
          req_status = ''Approved''\<rparr>"
  by code_simp

text \<open>
  C1, at the input where the code departs from the claim. User 1 holds VDI01 and user 2
  has requested it. The approval throws "VDI already assigned" and VDI01 stays with
  user 1: ownership is not transferred.
\<close>

theorem approve_held_vdi_fails:
  "map_of (vdiRequests (run sample_storage
      [AssignVDI ''VDI01'' 1, CreateVDIRequest ''VDI01'' 2])) 1 =
     Some \<lparr>req_id = 1, req_vdiId = ''VDI01'', req_requestedByUserId = 2,
          req_status = ''Pending''\<rparr> \<and>
   fst (approveVDIRequest 1 (run sample_storage
      [AssignVDI ''VDI01'' 1, CreateVDIRequest ''VDI01'' 2])) =
     Inl (Error ''VDI already assigned'') \<and>
   map_of (vdis (snd (approveVDIRequest 1 (run sample_storage
      [AssignVDI ''VDI01'' 1, CreateVDIRequest ''VDI01'' 2])))) ''VDI01'' =
     Some \<lparr>vdi_id = ''VDI01'', vdi_status = ''Assigned'', vdi_assignedUserId = Some 1\<rparr>"
  by code_simp

section \<open>Notifying the holder\<close>















end
